theory Spec2Isabelle
  imports Complex_Main
begin

section \<open>Lyric transcription: segmentation, word mapping and timestamp repair\<close>

text \<open>
  A shallow embedding of \<^verbatim>\<open>transcribe.py\<close> (free transcription) and
  \<^verbatim>\<open>transcribe_v2.py\<close> (guided alignment). Timestamps are Python floats in the
  source; here they are exact rationals, so \<open>0.28\<close> is the fraction 28/100. A time that
  the script has rounded to two decimals is kept as that fraction; the double that holds
  it in the script is the nearest one, \<open>dbl\<close> of it. The line test of the segmenter, whose
  outcome at a decimal gap of 0.80 depends on the binary rounding, is evaluated on the
  doubles; the repairer and the mapper compute on the fractions. NaN and the infinities
  are not modelled.
  The ground-truth lyric lines and the section table are literals of the script; the
  model takes them as parameters and is applied to the literals \<open>LYRICS_LINES\<close> and
  \<open>section_map\<close>.
\<close>

subsection \<open>Numbers\<close>

text \<open>
  Python's \<^verbatim>\<open>round(x, 2)\<close>: the nearest multiple of 0.01, a tie going to the even
  hundredth.
\<close>

definition round_half_even :: "rat \<Rightarrow> int" where
  "round_half_even x =
     (let f = \<lfloor>x\<rfloor>; d = x - of_int f
      in if d < 1 / 2 then f
         else if 1 / 2 < d then f + 1
         else if even f then f else f + 1)"

definition round2 :: "rat \<Rightarrow> rat" where
  "round2 x = of_int (round_half_even (x * 100)) / 100"

text \<open>
  The double nearest to a rational, a tie going to the even significand: with \<open>e\<close> the
  binary exponent of \<open>x\<close>, that is \<open>2 ^ e \<le> \<bar>x\<bar> < 2 ^ (e + 1)\<close>, the significand is
  \<open>\<bar>x\<bar> / 2 ^ (e - 52)\<close> rounded to an integer of 53 bits. The exponent range is not
  bounded: timestamps are far from the subnormal numbers and from overflow.
\<close>

function ilog2 :: "int \<Rightarrow> int" where
  "ilog2 n = (if n < 2 then 0 else ilog2 (n div 2) + 1)"
  by pat_completeness auto
termination by (relation "measure nat") auto

declare ilog2.simps [simp del]

definition pow2 :: "int \<Rightarrow> rat" where
  "pow2 e = (if 0 \<le> e then 2 ^ nat e else 1 / 2 ^ nat (- e))"

text \<open>
  For \<open>x = p / q > 0\<close> in lowest terms the difference \<open>d\<close> of the bit lengths of \<open>p\<close>
  and \<open>q\<close> is the binary exponent of \<open>x\<close> or one more than it.
\<close>

definition binary_exponent :: "rat \<Rightarrow> int" where
  "binary_exponent x =
     (let (p, q) = quotient_of x;
          d = ilog2 p - ilog2 q
      in if pow2 d \<le> x then d else d - 1)"

definition dbl :: "rat \<Rightarrow> rat" where
  "dbl x =
     (if x = 0 then 0
      else let e = binary_exponent \<bar>x\<bar> - 52
           in sgn x * of_int (round_half_even (\<bar>x\<bar> / pow2 e)) * pow2 e)"

subsection \<open>Data\<close>

text \<open>A word object of the alignment result, and a segment with its identifier.\<close>

record word_obs =
  wo_word :: string
  wo_start :: rat
  wo_end :: rat

record segment =
  seg_id :: int
  seg_words :: "word_obs list"

text \<open>The dictionary \<^verbatim>\<open>{"word": .., "time": .., "line": ..}\<close> of the output.\<close>

record word_record =
  word :: string
  time :: rat
  line :: nat

subsection \<open>Timestamp repair (\<^verbatim>\<open>fix_timestamps\<close>, transcribe\_v2.py)\<close>

text \<open>
  The body of the loop \<^verbatim>\<open>for i in range(1, len(words))\<close> at one index. The state is
  the list, mutated in place in the source, and the counter \<^verbatim>\<open>fixed\<close>. The indices
  \<open>i - 1\<close> and \<open>i\<close> are always in range, since \<open>1 \<le> i < len(words)\<close> and an
  update keeps the length.
\<close>

definition fix_at :: "nat \<Rightarrow> word_record list \<times> nat \<Rightarrow> word_record list \<times> nat" where
  "fix_at i s =
     (let (words, fixed) = s;
          prev_time = time (words ! (i - 1));
          cur_time = time (words ! i)
      in if line (words ! i) = line (words ! (i - 1)) then
           (if cur_time < prev_time \<or> 4.0 < cur_time - prev_time
            then (words[i := (words ! i)\<lparr>time := round2 (prev_time + 0.28)\<rparr>], fixed + 1)
            else (words, fixed))
         else if cur_time < prev_time
           then (words[i := (words ! i)\<lparr>time := round2 (prev_time + 0.6)\<rparr>], fixed + 1)
         else if 10.0 < cur_time - prev_time
           then (words[i := (words ! i)\<lparr>time := round2 (prev_time + 2.0)\<rparr>], fixed + 1)
         else (words, fixed))"

definition fix_timestamps :: "word_record list \<Rightarrow> word_record list \<times> nat" where
  "fix_timestamps words = fold fix_at [1..<length words] (words, 0)"

text \<open>
  The passes \<^verbatim>\<open>for pass_num in range(5)\<close> with their \<^verbatim>\<open>break\<close>. The state holds
  the module-level variables \<^verbatim>\<open>words\<close>, \<^verbatim>\<open>total_fixed\<close>, \<^verbatim>\<open>pass_num\<close>
  and \<^verbatim>\<open>n\<close> as they stand when the loop is left.
\<close>

record repair_state =
  rs_words :: "word_record list"
  rs_total_fixed :: nat
  rs_pass_num :: nat
  rs_n :: nat

fun run_passes :: "nat list \<Rightarrow> repair_state \<Rightarrow> repair_state" where
  "run_passes [] st = st"
| "run_passes (p # ps) st =
     (let (ws, n) = fix_timestamps (rs_words st);
          st' = \<lparr>rs_words = ws, rs_total_fixed = rs_total_fixed st + n,
                 rs_pass_num = p, rs_n = n\<rparr>
      in if n = 0 then st' else run_passes ps st')"

text \<open>
  \<^verbatim>\<open>pass_num\<close> and \<^verbatim>\<open>n\<close> are unbound before the first pass; \<open>range(5)\<close> is
  not empty, so the first pass always binds them and the initial values below are never
  read.
\<close>

definition repair :: "word_record list \<Rightarrow> repair_state" where
  "repair words =
     run_passes [0..<5] \<lparr>rs_words = words, rs_total_fixed = 0, rs_pass_num = 0, rs_n = 0\<rparr>"

text \<open>What the repairer checks of the pair \<open>(i - 1, i)\<close>.\<close>

definition pair_ok :: "word_record list \<Rightarrow> nat \<Rightarrow> bool" where
  "pair_ok ws i =
     (if line (ws ! i) = line (ws ! (i - 1))
      then time (ws ! (i - 1)) \<le> time (ws ! i) \<and> time (ws ! i) - time (ws ! (i - 1)) \<le> 4.0
      else time (ws ! (i - 1)) \<le> time (ws ! i) \<and> time (ws ! i) - time (ws ! (i - 1)) \<le> 10.0)"

subsection \<open>Strings\<close>

text \<open>
  \<^verbatim>\<open>str.strip()\<close>, \<^verbatim>\<open>str.split()\<close> and \<^verbatim>\<open>" ".join\<close>. A string is a list of
  bytes here; the whitespace characters are those of ASCII that Python's \<open>str\<close>
  treats as whitespace. Whitespace beyond ASCII is not modelled.
\<close>

definition is_space :: "char \<Rightarrow> bool" where
  "is_space c =
     (c \<in> set [CHR 0x09, CHR 0x0A, CHR 0x0B, CHR 0x0C, CHR 0x0D,
                CHR 0x1C, CHR 0x1D, CHR 0x1E, CHR 0x1F, CHR 0x20])"

definition strip :: "string \<Rightarrow> string" where
  "strip s = rev (dropWhile is_space (rev (dropWhile is_space s)))"

text \<open>\<open>split_from cur s\<close>: the words of \<open>s\<close>, \<open>cur\<close> being the word read so far.\<close>

fun split_from :: "string \<Rightarrow> string \<Rightarrow> string list" where
  "split_from cur [] = (if cur = [] then [] else [cur])"
| "split_from cur (c # cs) =
     (if is_space c then (if cur = [] then split_from [] cs else cur # split_from [] cs)
      else split_from (cur @ [c]) cs)"

definition split_ws :: "string \<Rightarrow> string list" where
  "split_ws s = split_from [] s"

fun join_sp :: "string list \<Rightarrow> string" where
  "join_sp [] = []"
| "join_sp [w] = w"
| "join_sp (w # ws) = w @ CHR 0x20 # join_sp ws"

text \<open>\<^verbatim>\<open>str(i)\<close> of a natural number: its decimal digits.\<close>

definition digit_char :: "nat \<Rightarrow> char" where
  "digit_char d = ''0123456789'' ! d"

fun str_nat :: "nat \<Rightarrow> string" where
  "str_nat n = (if n < 10 then [digit_char n] else str_nat (n div 10) @ [digit_char (n mod 10)])"

declare str_nat.simps [simp del]

subsection \<open>Line segmentation (transcribe.py)\<close>

text \<open>
  The staged dictionary carries the extra key \<^verbatim>\<open>"_end"\<close>, read with
  \<^verbatim>\<open>.get("_end", time + 0.3)\<close> and deleted before the output is built. The test
  \<^verbatim>\<open>t - last_end > 0.8\<close> subtracts and compares doubles.
\<close>

record staged_word = word_record +
  w_end :: "rat option"

record seg_state =
  sg_words :: "staged_word list"
  sg_line_idx :: nat
  sg_prev_seg :: int

text \<open>The body of the inner loop, for one word object of the segment with identifier \<open>sid\<close>.\<close>

definition seg_word :: "int \<Rightarrow> word_obs \<Rightarrow> seg_state \<Rightarrow> seg_state" where
  "seg_word sid word_obj st =
     (let w = strip (wo_word word_obj)
      in if w = [] then st
         else
           let t = round2 (wo_start word_obj);
               line_idx' =
                 (if sg_words st \<noteq> [] \<and> sid \<noteq> sg_prev_seg st then
                    (let last_end = (case w_end (last (sg_words st)) of
                                       Some e \<Rightarrow> dbl e
                                     | None \<Rightarrow> dbl (dbl (time (last (sg_words st))) + dbl 0.3))
                     in if dbl 0.8 < dbl (dbl t - last_end) then sg_line_idx st + 1
                        else sg_line_idx st)
                  else sg_line_idx st)
           in \<lparr>sg_words = sg_words st @
                  [\<lparr>word = w, time = t, line = line_idx',
                    w_end = Some (round2 (wo_end word_obj))\<rparr>],
               sg_line_idx = line_idx', sg_prev_seg = sid\<rparr>)"

definition seg_init :: seg_state where
  "seg_init = \<lparr>sg_words = [], sg_line_idx = 0, sg_prev_seg = - 1\<rparr>"

definition seg_loop :: "segment list \<Rightarrow> seg_state \<Rightarrow> seg_state" where
  "seg_loop segments st =
     fold (\<lambda>segment. fold (seg_word (seg_id segment)) (seg_words segment)) segments st"

text \<open>The words after \<^verbatim>\<open>del w["_end"]\<close>.\<close>

definition transcribe_words :: "segment list \<Rightarrow> word_record list" where
  "transcribe_words segments = map word_record.truncate (sg_words (seg_loop segments seg_init))"

text \<open>
  \<^verbatim>\<open>lines.setdefault(k, []).append(v)\<close> on a dictionary kept as an association list in
  insertion order.
\<close>

fun setdefault_append :: "nat \<Rightarrow> string \<Rightarrow> (nat \<times> string list) list \<Rightarrow> (nat \<times> string list) list" where
  "setdefault_append k v [] = [(k, [v])]"
| "setdefault_append k v ((k', vs) # d) =
     (if k' = k then (k', vs @ [v]) # d else (k', vs) # setdefault_append k v d)"

definition build_lines :: "word_record list \<Rightarrow> (nat \<times> string list) list" where
  "build_lines words = fold (\<lambda>w lines. setdefault_append (line w) (word w) lines) words []"

record output_v1 =
  out_words :: "word_record list"
  out_lines :: "(nat \<times> string) list"
  out_totalWords :: nat
  out_totalLines :: nat

definition assemble :: "word_record list \<Rightarrow> output_v1" where
  "assemble words =
     (let lines = build_lines words;
          line_texts = map (\<lambda>(k, v). (k, join_sp v)) lines
      in \<lparr>out_words = words, out_lines = line_texts,
          out_totalWords = length words, out_totalLines = length line_texts\<rparr>)"

definition transcribe :: "segment list \<Rightarrow> output_v1" where
  "transcribe segments = assemble (transcribe_words segments)"

subsection \<open>Word mapping (transcribe\_v2.py)\<close>

record aligned_word =
  aw_word :: string
  aw_start :: rat
  aw_end :: rat

definition collect_word :: "word_obs \<Rightarrow> aligned_word list \<Rightarrow> aligned_word list" where
  "collect_word word_obj all_aligned_words =
     (let w = strip (wo_word word_obj)
      in if w \<noteq> [] then
           all_aligned_words @
             [\<lparr>aw_word = w, aw_start = round2 (wo_start word_obj),
               aw_end = round2 (wo_end word_obj)\<rparr>]
         else all_aligned_words)"

definition collect_aligned :: "segment list \<Rightarrow> aligned_word list" where
  "collect_aligned segments = fold (\<lambda>segment. fold collect_word (seg_words segment)) segments []"

text \<open>
  The body of the mapping loop for one expected word; the state is \<^verbatim>\<open>words\<close> and
  \<^verbatim>\<open>idx\<close>. \<^verbatim>\<open>words[-1]\<close> is read only when \<^verbatim>\<open>words\<close> is not empty.
\<close>

definition map_word ::
  "aligned_word list \<Rightarrow> nat \<Rightarrow> string \<Rightarrow> word_record list \<times> nat \<Rightarrow> word_record list \<times> nat" where
  "map_word all_aligned_words line_num expected_word s =
     (let (words, idx) = s
      in if idx < length all_aligned_words then
           (let aw = all_aligned_words ! idx
            in (words @ [\<lparr>word = expected_word, time = aw_start aw, line = line_num\<rparr>], idx + 1))
         else
           (let last_t = (if words \<noteq> [] then time (last words) + 0.3 else 0)
            in (words @ [\<lparr>word = expected_word, time = round2 last_t, line = line_num\<rparr>], idx)))"

definition map_line ::
  "aligned_word list \<Rightarrow> nat \<times> string \<Rightarrow> word_record list \<times> nat \<Rightarrow> word_record list \<times> nat" where
  "map_line all_aligned_words e s =
     (let (line_num, line_text) = e;
          expected_words = split_ws line_text
      in fold (map_word all_aligned_words line_num) expected_words s)"

definition map_words :: "string list \<Rightarrow> aligned_word list \<Rightarrow> word_record list" where
  "map_words lyrics_lines all_aligned_words =
     fst (fold (map_line all_aligned_words) (enumerate 0 lyrics_lines) ([], 0))"

definition line_texts_v2 :: "string list \<Rightarrow> (string \<times> string) list" where
  "line_texts_v2 lyrics_lines = map (\<lambda>(i, l). (str_nat i, l)) (enumerate 0 lyrics_lines)"

text \<open>The lyric lines of the script.\<close>

definition LYRICS_LINES :: "string list" where
  "LYRICS_LINES =
     [''How'd it all fall apart?'',
      ''You were right here before, in my arms'',
      ''Now you're invisible'',
      ''But the heartbreak's physical'',
      ''Got a place, moved away'',
      ''Somewhere with a different code, different state'',
      ''Still feels miserable'',
      ''God, it's so chemical'',
      ''All that I know'',
      ''Is I can't let you go'',
      ''It's been two years and you're still not gone'',
      ''Doesn't make sense that I can't move on'',
      ''Yeah, I try, I try, I try, I try'',
      ''But this love never dies'',
      ''Two years since you've been in my bed'',
      ''Even had a funeral for you in my head'',
      ''Yeah, I try, I try, I try, I try'',
      ''But this love never dies'',
      ''Another night, another vice'',
      ''Even try with someone new, someone nice'',
      ''I'll always hate the fact that you'',
      ''Ruined everybody after you'',
      ''I'm always coming back to you'',
      ''It's been two years and you're still not gone'',
      ''Doesn't make sense that I can't move on'',
      ''Yeah, I try, I try, I try, I try'',
      ''But this love never dies'',
      ''Two years since you've been in my bed'',
      ''Even had a funeral for you in my head'',
      ''Yeah, I try, I try, I try, I try'',
      ''But this love never dies'',
      ''It's been two years and you're still not gone'',
      ''Doesn't make sense that I can't move on'',
      ''Yeah, I try, I try, I try, I try'',
      ''But this love never dies'',
      ''Two years since you've been in my bed'',
      ''Even had a funeral for you in my head'',
      ''Yeah, I try, I try, I try, I try'',
      ''But this love never dies'']"

subsection \<open>Section labels and the output (transcribe\_v2.py)\<close>

record section_entry =
  sec_time :: rat
  sec_label :: string

text \<open>
  \<^verbatim>\<open>section_map\<close> is a dictionary: an association list whose keys are distinct, so
  that \<^verbatim>\<open>sorted(section_map.items())\<close> orders the items by their key alone.
\<close>

definition section_map :: "(nat \<times> string) list" where
  "section_map =
     [(0, ''Verse 1''), (8, ''Pre-Chorus''), (10, ''Chorus''), (18, ''Verse 2''), (23, ''Chorus'')]"

definition add_section :: "word_record list \<Rightarrow> nat \<times> string \<Rightarrow> section_entry list \<Rightarrow> section_entry list" where
  "add_section words e sections =
     (let (line_num, label) = e;
          line_w = filter (\<lambda>w. line w = line_num) words
      in if line_w \<noteq> []
         then sections @ [\<lparr>sec_time = round2 (time (hd line_w) - 0.5), sec_label = label\<rparr>]
         else sections)"

definition build_sections :: "(nat \<times> string) list \<Rightarrow> word_record list \<Rightarrow> section_entry list" where
  "build_sections smap words = fold (add_section words) (sort_key fst smap) []"

record output_v2 =
  o2_words :: "word_record list"
  o2_lines :: "(string \<times> string) list"
  o2_sections :: "section_entry list"
  o2_totalWords :: nat
  o2_totalLines :: nat

text \<open>The script from the alignment result to the output dictionary.\<close>

definition align_lyrics :: "string list \<Rightarrow> (nat \<times> string) list \<Rightarrow> segment list \<Rightarrow> output_v2" where
  "align_lyrics lyrics_lines smap segments =
     (let all_aligned_words = collect_aligned segments;
          words = map_words lyrics_lines all_aligned_words;
          line_texts = line_texts_v2 lyrics_lines;
          words' = rs_words (repair words);
          sections = build_sections smap words'
      in \<lparr>o2_words = words', o2_lines = line_texts, o2_sections = sections,
          o2_totalWords = length words', o2_totalLines = length line_texts\<rparr>)"

subsection \<open>The line mapping as the specification words it\<close>


subsection \<open>Notions used to state the properties\<close>

text \<open>
  The word objects the loops keep (those whose stripped text is not empty), in order; the
  expected words of the lyric lines, in order, alone and with their line number.
\<close>

definition kept_words :: "segment list \<Rightarrow> word_obs list" where
  "kept_words segments = filter (\<lambda>word_obj. strip (wo_word word_obj) \<noteq> []) (concat (map seg_words segments))"

definition expected_pairs :: "string list \<Rightarrow> (nat \<times> string) list" where
  "expected_pairs lyrics_lines =
     concat (map (\<lambda>(line_num, line_text). map (Pair line_num) (split_ws line_text))
                 (enumerate 0 lyrics_lines))"

definition expected_words :: "string list \<Rightarrow> string list" where
  "expected_words lyrics_lines = concat (map split_ws lyrics_lines)"

text \<open>
  The word objects the segmentation loop keeps, each with the identifier of its segment.
\<close>

definition kept_tagged :: "segment list \<Rightarrow> (int \<times> word_obs) list" where
  "kept_tagged segments =
     filter (\<lambda>p. strip (wo_word (snd p)) \<noteq> [])
       (concat (map (\<lambda>segment. map (Pair (seg_id segment)) (seg_words segment)) segments))"

subsection \<open>The worked example of the specification\<close>

definition ex_lyrics :: "string list" where
  "ex_lyrics = [''hello world'', ''goodbye now'']"

definition ex_aligned :: "aligned_word list" where
  "ex_aligned =
     [\<lparr>aw_word = ''hello'', aw_start = 0.00, aw_end = 0.40\<rparr>,
      \<lparr>aw_word = ''world'', aw_start = 5.20, aw_end = 5.50\<rparr>,
      \<lparr>aw_word = ''goodbye'', aw_start = 5.60, aw_end = 6.00\<rparr>,
      \<lparr>aw_word = ''now'', aw_start = 6.10, aw_end = 6.40\<rparr>]"

text \<open>An alignment result that runs out after its first word.\<close>

definition ex_short :: "segment list" where
  "ex_short =
     [\<lparr>seg_id = 0, seg_words =
        [\<lparr>wo_word = '' hello'', wo_start = 0.004, wo_end = 0.40\<rparr>,
         \<lparr>wo_word = ''  '', wo_start = 0.5, wo_end = 0.6\<rparr>]\<rparr>]"

text \<open>Three one-word segments; the second word starts 0.804 after the end of the first.\<close>

definition ex_round :: "segment list" where
  "ex_round =
     [\<lparr>seg_id = 0, seg_words = [\<lparr>wo_word = ''a'', wo_start = 0.0, wo_end = 1.0\<rparr>]\<rparr>,
      \<lparr>seg_id = 1, seg_words = [\<lparr>wo_word = ''b'', wo_start = 1.804, wo_end = 2.0\<rparr>]\<rparr>,
      \<lparr>seg_id = 2, seg_words = [\<lparr>wo_word = ''c'', wo_start = 3.0, wo_end = 3.5\<rparr>]\<rparr>]"

text \<open>
  Two one-word segments; the second word starts at 1.37 and the first ends at 0.57, which
  the doubles subtract to 0.8000000000000002.
\<close>

definition ex_tie :: "segment list" where
  "ex_tie =
     [\<lparr>seg_id = 0, seg_words = [\<lparr>wo_word = ''a'', wo_start = 0.0, wo_end = 0.57\<rparr>]\<rparr>,
      \<lparr>seg_id = 1, seg_words = [\<lparr>wo_word = ''b'', wo_start = 1.37, wo_end = 2.0\<rparr>]\<rparr>]"

text \<open>An alignment result whose only word is blank, and one without any word.\<close>

definition ex_blank :: "segment list" where
  "ex_blank = [\<lparr>seg_id = 0, seg_words = [\<lparr>wo_word = '' '', wo_start = 0.5, wo_end = 0.6\<rparr>]\<rparr>]"

definition ex_silent :: "segment list" where
  "ex_silent = [\<lparr>seg_id = 0, seg_words = []\<rparr>]"

text \<open>The final words as the script computes them, and as the specification expects them.\<close>

definition ex_repaired :: "word_record list" where
  "ex_repaired =
     [\<lparr>word = ''hello'', time = 0.00, line = 0\<rparr>, \<lparr>word = ''world'', time = 0.28, line = 0\<rparr>,
      \<lparr>word = ''goodbye'', time = 5.60, line = 1\<rparr>, \<lparr>word = ''now'', time = 6.10, line = 1\<rparr>]"

definition ex_claimed :: "word_record list" where
  "ex_claimed =
     [\<lparr>word = ''hello'', time = 0.00, line = 0\<rparr>, \<lparr>word = ''world'', time = 0.68, line = 0\<rparr>,
      \<lparr>word = ''goodbye'', time = 5.60, line = 1\<rparr>, \<lparr>word = ''now'', time = 6.10, line = 1\<rparr>]"

section \<open>Properties of the repairer\<close>

lemma map_update_same: "(map f xs)[i := f (xs ! i)] = map f xs"
  by (metis list_update_id map_update)

lemma fix_at_length: "length (fst (fix_at i s)) = length (fst s)"
  by (cases s) (simp add: fix_at_def Let_def)

lemma set_time_word: "map word (ws[i := (ws ! i)\<lparr>time := t\<rparr>]) = map word ws"
  by (simp add: map_update map_update_same)

lemma set_time_line: "map line (ws[i := (ws ! i)\<lparr>time := t\<rparr>]) = map line ws"
  by (simp add: map_update map_update_same)

lemma fix_at_word: "map word (fst (fix_at i s)) = map word (fst s)"
  by (cases s) (simp add: fix_at_def Let_def set_time_word)

lemma fix_at_line: "map line (fst (fix_at i s)) = map line (fst s)"
  by (cases s) (simp add: fix_at_def Let_def set_time_line)

lemma fix_at_other: "j \<noteq> i \<Longrightarrow> fst (fix_at i s) ! j = fst s ! j"
  by (cases s) (simp add: fix_at_def Let_def)

lemma fix_at_count: "snd s \<le> snd (fix_at i s)"
  by (cases s) (simp add: fix_at_def Let_def)

lemma fix_at_zero:
  assumes "snd (fix_at i s) = 0"
  shows "fix_at i s = s \<and> pair_ok (fst s) i"
  using assms by (cases s) (simp add: fix_at_def Let_def pair_ok_def split: if_splits)

lemma fix_at_ok:
  assumes "pair_ok (fst s) i"
  shows "fix_at i s = s"
  using assms by (cases s) (auto simp add: fix_at_def Let_def pair_ok_def split: if_splits)

lemma fold_fix_at_length: "length (fst (fold fix_at is s)) = length (fst s)"
  by (induction "is" arbitrary: s) (simp_all add: fix_at_length)

lemma fold_fix_at_word: "map word (fst (fold fix_at is s)) = map word (fst s)"
  by (induction "is" arbitrary: s) (simp_all add: fix_at_word)

lemma fold_fix_at_line: "map line (fst (fold fix_at is s)) = map line (fst s)"
  by (induction "is" arbitrary: s) (simp_all add: fix_at_line)

lemma fold_fix_at_other: "j \<notin> set is \<Longrightarrow> fst (fold fix_at is s) ! j = fst s ! j"
  by (induction "is" arbitrary: s) (simp_all add: fix_at_other)

lemma fold_fix_at_count: "snd s \<le> snd (fold fix_at is s)"
proof (induction "is" arbitrary: s)
  case Nil
  show ?case by simp
next
  case (Cons i "is")
  have "snd s \<le> snd (fix_at i s)" by (rule fix_at_count)
  also have "\<dots> \<le> snd (fold fix_at is (fix_at i s))" by (rule Cons.IH)
  finally show ?case by simp
qed

lemma fold_fix_at_zero:
  assumes "snd (fold fix_at is s) = 0"
  shows "fold fix_at is s = s \<and> (\<forall>i \<in> set is. pair_ok (fst s) i)"
  using assms
proof (induction "is" arbitrary: s)
  case Nil
  show ?case by simp
next
  case (Cons i "is")
  from Cons.prems have z: "snd (fold fix_at is (fix_at i s)) = 0" by simp
  have "snd (fix_at i s) \<le> snd (fold fix_at is (fix_at i s))" by (rule fold_fix_at_count)
  with z have "snd (fix_at i s) = 0" by simp
  then have here: "fix_at i s = s" "pair_ok (fst s) i" using fix_at_zero by blast+
  from Cons.IH [OF z] here show ?case by simp
qed

lemma fold_fix_at_ok:
  assumes "\<forall>i \<in> set is. pair_ok (fst s) i"
  shows "fold fix_at is s = s"
  using assms by (induction "is" arbitrary: s) (simp_all add: fix_at_ok)

lemma fix_timestamps_zero:
  assumes "snd (fix_timestamps ws) = 0"
  shows "fst (fix_timestamps ws) = ws" and "\<forall>i. 0 < i \<and> i < length ws \<longrightarrow> pair_ok ws i"
proof -
  from assms have z: "snd (fold fix_at [1..<length ws] (ws, 0)) = 0"
    by (simp add: fix_timestamps_def)
  from fold_fix_at_zero [OF z] show "fst (fix_timestamps ws) = ws"
    by (simp add: fix_timestamps_def)
  from fold_fix_at_zero [OF z] show "\<forall>i. 0 < i \<and> i < length ws \<longrightarrow> pair_ok ws i"
    by auto
qed

lemma run_passes_zero:
  assumes "rs_n (run_passes ps st) = 0" and "ps \<noteq> []"
  shows "snd (fix_timestamps (rs_words (run_passes ps st))) = 0"
  using assms
proof (induction ps arbitrary: st)
  case Nil
  then show ?case by simp
next
  case (Cons p ps)
  obtain ws n where f: "fix_timestamps (rs_words st) = (ws, n)" by (cases "fix_timestamps (rs_words st)")
  show ?case
  proof (cases "n = 0")
    case True
    with f have "snd (fix_timestamps (rs_words st)) = 0" by simp
    then have "fst (fix_timestamps (rs_words st)) = rs_words st" by (rule fix_timestamps_zero)
    with f True show ?thesis by simp
  next
    case False
    let ?st = "\<lparr>rs_words = ws, rs_total_fixed = rs_total_fixed st + n, rs_pass_num = p, rs_n = n\<rparr>"
    from f False have eq: "run_passes (p # ps) st = run_passes ps ?st" by simp
    show ?thesis
    proof (cases ps)
      case Nil
      with eq Cons.prems False show ?thesis by simp
    next
      case (Cons q qs)
      with Cons.IH [of ?st] eq Cons.prems show ?thesis by simp
    qed
  qed
qed

lemma ex_repaired_fixed: "fix_timestamps ex_repaired = (ex_repaired, 0)"
  by code_simp

lemma ex_repair:
  "repair (map_words ex_lyrics ex_aligned) =
     \<lparr>rs_words = ex_repaired, rs_total_fixed = 1, rs_pass_num = 1, rs_n = 0\<rparr>"
  by code_simp

text \<open>
  Claim C10. One pass of \<^verbatim>\<open>fix_timestamps\<close> changes nothing but the \<open>time\<close> of
  records at positions \<open>i \<ge> 1\<close>: the list keeps its length, every record keeps its
  \<open>word\<close> and its \<open>line\<close>, and the record at position 0 (if there is one) is the
  same record.
\<close>

theorem fix_timestamps_frame:
  "length (fst (fix_timestamps ws)) = length ws \<and>
   map word (fst (fix_timestamps ws)) = map word ws \<and>
   map line (fst (fix_timestamps ws)) = map line ws \<and>
   take 1 (fst (fix_timestamps ws)) = take 1 ws"
proof -
  have "fst (fold fix_at [1..<length ws] (ws, 0)) ! 0 = ws ! 0"
    using fold_fix_at_other [of 0 "[1..<length ws]" "(ws, 0)"] by simp
  moreover have "length (fst (fold fix_at [1..<length ws] (ws, 0))) = length ws"
    by (simp add: fold_fix_at_length)
  ultimately have "take 1 (fst (fold fix_at [1..<length ws] (ws, 0))) = take 1 ws"
    by (cases ws; cases "fst (fold fix_at [1..<length ws] (ws, 0))") simp_all
  then show ?thesis
    by (simp add: fix_timestamps_def fold_fix_at_length fold_fix_at_word fold_fix_at_line)
qed

text \<open>
  Claim C7. If a pass over \<open>ws\<close> applies no fix, it returns \<open>ws\<close> itself, a second pass
  over the result again applies no fix and returns the same records, and the whole
  repairer run on it stops after its first pass with a total of zero fixes.
\<close>

theorem fix_timestamps_idempotent:
  assumes "fix_timestamps ws = (ws', 0)"
  shows "ws' = ws \<and> fix_timestamps ws' = (ws', 0) \<and>
         repair ws' = \<lparr>rs_words = ws', rs_total_fixed = 0, rs_pass_num = 0, rs_n = 0\<rparr>"
proof -
  from assms have "snd (fix_timestamps ws) = 0" by simp
  then have "fst (fix_timestamps ws) = ws" by (rule fix_timestamps_zero)
  with assms have eq: "ws' = ws" by simp
  with assms have again: "fix_timestamps ws' = (ws', 0)" by simp
  have "[0..<5] = 0 # [1..<5]" by (simp add: upt_conv_Cons)
  with again have "repair ws' = \<lparr>rs_words = ws', rs_total_fixed = 0, rs_pass_num = 0, rs_n = 0\<rparr>"
    by (simp add: repair_def)
  with eq again show ?thesis by simp
qed

theorem fix_timestamps_idempotent_witness:
  "fix_timestamps ex_repaired = (ex_repaired, 0) \<and>
   repair ex_repaired = \<lparr>rs_words = ex_repaired, rs_total_fixed = 0, rs_pass_num = 0, rs_n = 0\<rparr>"
  using fix_timestamps_idempotent [OF ex_repaired_fixed] by simp

text \<open>
  Claim C1. When the repairer has converged, that is when the last pass it ran applied no
  fix (\<open>n = 0\<close> on leaving the loop), every adjacent pair \<open>(i - 1, i)\<close> of the final
  words has \<open>time[i] \<ge> time[i-1]\<close>, with a gap of at most 4.0 when both records are on
  the same line and of at most 10.0 when they are on different lines. A gap of exactly
  4.0 is allowed.
\<close>

theorem repair_converged:
  assumes "rs_n (repair ws) = 0" and "0 < i" and "i < length (rs_words (repair ws))"
  shows "time (rs_words (repair ws) ! (i - 1)) \<le> time (rs_words (repair ws) ! i) \<and>
         (if line (rs_words (repair ws) ! i) = line (rs_words (repair ws) ! (i - 1))
          then time (rs_words (repair ws) ! i) - time (rs_words (repair ws) ! (i - 1)) \<le> 4.0
          else time (rs_words (repair ws) ! i) - time (rs_words (repair ws) ! (i - 1)) \<le> 10.0)"
proof -
  have "[0..<5] \<noteq> []" by simp
  with assms(1) have "snd (fix_timestamps (rs_words (repair ws))) = 0"
    unfolding repair_def by (rule run_passes_zero)
  then have "\<forall>i. 0 < i \<and> i < length (rs_words (repair ws)) \<longrightarrow> pair_ok (rs_words (repair ws)) i"
    by (rule fix_timestamps_zero)
  with assms(2,3) have "pair_ok (rs_words (repair ws)) i" by simp
  then show ?thesis by (simp add: pair_ok_def split: if_splits)
qed

theorem repair_converged_witness:
  "rs_n (repair (map_words ex_lyrics ex_aligned)) = 0 \<and> (0::nat) < 1 \<and>
   1 < length (rs_words (repair (map_words ex_lyrics ex_aligned))) \<and>
   time (rs_words (repair (map_words ex_lyrics ex_aligned)) ! 0)
     \<le> time (rs_words (repair (map_words ex_lyrics ex_aligned)) ! 1) \<and>
   time (rs_words (repair (map_words ex_lyrics ex_aligned)) ! 1)
     - time (rs_words (repair (map_words ex_lyrics ex_aligned)) ! 0) \<le> 4.0"
proof -
  have a: "rs_n (repair (map_words ex_lyrics ex_aligned)) = 0" by (simp add: ex_repair)
  have b: "1 < length (rs_words (repair (map_words ex_lyrics ex_aligned)))"
    by (simp add: ex_repair ex_repaired_def)
  from repair_converged [OF a _ b] a b show ?thesis
    by (simp add: ex_repair ex_repaired_def)
qed

section \<open>Properties of the word mapper\<close>

lemma round2_zero: "round2 0 = 0"
  by (simp add: round2_def round_half_even_def)

lemma fold_collect_word:
  "fold collect_word os acc =
     acc @ map (\<lambda>word_obj. \<lparr>aw_word = strip (wo_word word_obj),
                               aw_start = round2 (wo_start word_obj),
                               aw_end = round2 (wo_end word_obj)\<rparr>)
               (filter (\<lambda>word_obj. strip (wo_word word_obj) \<noteq> []) os)"
  by (induction os arbitrary: acc) (simp_all add: collect_word_def Let_def)

lemma fold_collect_segments:
  "fold (\<lambda>segment. fold collect_word (seg_words segment)) segs acc =
     acc @ map (\<lambda>word_obj. \<lparr>aw_word = strip (wo_word word_obj),
                               aw_start = round2 (wo_start word_obj),
                               aw_end = round2 (wo_end word_obj)\<rparr>)
               (filter (\<lambda>word_obj. strip (wo_word word_obj) \<noteq> []) (concat (map seg_words segs)))"
  by (induction segs arbitrary: acc) (simp_all add: fold_collect_word)

lemma collect_aligned_eq:
  "collect_aligned segs =
     map (\<lambda>word_obj. \<lparr>aw_word = strip (wo_word word_obj),
                         aw_start = round2 (wo_start word_obj),
                         aw_end = round2 (wo_end word_obj)\<rparr>) (kept_words segs)"
  by (simp add: collect_aligned_def kept_words_def fold_collect_segments)

lemma expected_pairs_words: "map snd (expected_pairs ls) = expected_words ls"
proof -
  have "map snd (concat (map (\<lambda>(line_num, line_text). map (Pair line_num) (split_ws line_text)) es))
        = concat (map split_ws (map snd es))" for es :: "(nat \<times> string) list"
    by (induction es) (auto simp: comp_def)
  from this [of "enumerate 0 ls"] show ?thesis
    by (simp add: expected_pairs_def expected_words_def)
qed

lemma length_expected_words: "length (expected_words ls) = (\<Sum>l\<leftarrow>ls. length (split_ws l))"
  by (simp add: expected_words_def length_concat comp_def)

lemma fold_map_line:
  "fold (map_line aw) es s =
     fold (\<lambda>p. map_word aw (fst p) (snd p))
          (concat (map (\<lambda>(line_num, line_text). map (Pair line_num) (split_ws line_text)) es)) s"
proof (induction es arbitrary: s)
  case Nil
  show ?case by simp
next
  case (Cons e es)
  obtain lnum body where e: "e = (lnum, body)" by (cases e)
  have "fold (map_word aw lnum) ws s = fold (\<lambda>p. map_word aw (fst p) (snd p)) (map (Pair lnum) ws) s" for ws
    by (simp add: fold_map comp_def)
  with Cons.IH e show ?case by (simp add: map_line_def)
qed

lemma map_pair_step:
  "map_word aw lnum w (ws, idx) =
     (ws @ [\<lparr>word = w,
              time = (if idx < length aw then aw_start (aw ! idx)
                      else round2 (if ws \<noteq> [] then time (last ws) + 0.3 else 0)),
              line = lnum\<rparr>],
      if idx < length aw then idx + 1 else idx)"
  by (simp add: map_word_def Let_def)

lemma fold_map_word_ext:
  "\<exists>ext. fst (fold (\<lambda>p. map_word aw (fst p) (snd p)) ps (ws, idx)) = ws @ ext \<and> length ext = length ps"
proof (induction ps arbitrary: ws idx)
  case Nil
  show ?case by simp
next
  case (Cons p ps)
  obtain ws' idx' where st: "map_word aw (fst p) (snd p) (ws, idx) = (ws', idx')"
    by (cases "map_word aw (fst p) (snd p) (ws, idx)")
  then obtain r where r: "ws' = ws @ [r]" by (auto simp: map_pair_step)
  from Cons.IH [of ws' idx'] obtain ext where
    "fst (fold (\<lambda>p. map_word aw (fst p) (snd p)) ps (ws', idx')) = ws' @ ext" "length ext = length ps"
    by blast
  with st r have "fst (fold (\<lambda>p. map_word aw (fst p) (snd p)) (p # ps) (ws, idx)) = ws @ (r # ext)
      \<and> length (r # ext) = length (p # ps)" by simp
  then show ?case by blast
qed

lemma fold_map_word_idx:
  "idx = min (length ws) (length aw) \<Longrightarrow>
   snd (fold (\<lambda>p. map_word aw (fst p) (snd p)) ps (ws, idx)) = min (length ws + length ps) (length aw)"
proof (induction ps arbitrary: ws idx)
  case Nil
  then show ?case by simp
next
  case (Cons p ps)
  let ?r = "\<lparr>word = snd p,
              time = (if idx < length aw then aw_start (aw ! idx)
                      else round2 (if ws \<noteq> [] then time (last ws) + 0.3 else 0)),
              line = fst p\<rparr>"
  let ?idx = "if idx < length aw then idx + 1 else idx"
  from Cons.prems have "?idx = min (length (ws @ [?r])) (length aw)" by auto
  from Cons.IH [OF this] show ?case by (simp add: map_pair_step)
qed

lemma length_map_words: "length (map_words ls aw) = length (expected_words ls)"
proof -
  obtain ext where
    "fst (fold (\<lambda>p. map_word aw (fst p) (snd p)) (expected_pairs ls) ([], 0)) = [] @ ext"
    "length ext = length (expected_pairs ls)"
    using fold_map_word_ext by blast
  moreover have "length (expected_pairs ls) = length (expected_words ls)"
    using expected_pairs_words [of ls] by (metis length_map)
  ultimately show ?thesis
    by (simp add: map_words_def fold_map_line expected_pairs_def)
qed

lemma map_words_nth:
  assumes "i < length (expected_pairs ls)"
  shows "map_words ls aw ! i =
     \<lparr>word = snd (expected_pairs ls ! i),
      time = (if i < length aw then aw_start (aw ! i)
              else round2 (if i \<noteq> 0 then time (map_words ls aw ! (i - 1)) + 0.3 else 0)),
      line = fst (expected_pairs ls ! i)\<rparr>"
proof -
  let ?f = "\<lambda>p. map_word aw (fst p) (snd p)"
  let ?ps = "expected_pairs ls"
  let ?p = "?ps ! i"
  have res: "map_words ls aw = fst (fold ?f ?ps ([], 0))"
    by (simp add: map_words_def fold_map_line expected_pairs_def)
  from assms have split: "?ps = take i ?ps @ ?p # drop (Suc i) ?ps"
    by (simp add: id_take_nth_drop)
  obtain ws1 idx1 where s1: "fold ?f (take i ?ps) ([], 0) = (ws1, idx1)"
    by (cases "fold ?f (take i ?ps) ([], 0)")
  from fold_map_word_ext [of aw "take i ?ps" "[]" 0] s1 assms have len1: "length ws1 = i"
    by auto
  from fold_map_word_idx [of 0 "[]" aw "take i ?ps"] s1 assms have idx1: "idx1 = min i (length aw)"
    by simp
  let ?r = "\<lparr>word = snd ?p,
              time = (if idx1 < length aw then aw_start (aw ! idx1)
                      else round2 (if ws1 \<noteq> [] then time (last ws1) + 0.3 else 0)),
              line = fst ?p\<rparr>"
  let ?idx2 = "if idx1 < length aw then idx1 + 1 else idx1"
  obtain ext where ext: "fst (fold ?f (drop (Suc i) ?ps) (ws1 @ [?r], ?idx2)) = (ws1 @ [?r]) @ ext"
    using fold_map_word_ext by blast
  have "fold ?f ?ps ([], 0) = fold ?f (drop (Suc i) ?ps) (?f ?p (fold ?f (take i ?ps) ([], 0)))"
    by (subst split) simp
  with s1 have "fold ?f ?ps ([], 0) = fold ?f (drop (Suc i) ?ps) (ws1 @ [?r], ?idx2)"
    by (simp add: map_pair_step)
  with ext res have whole: "map_words ls aw = ws1 @ ?r # ext" by simp
  from whole len1 have here: "map_words ls aw ! i = ?r" by (simp add: nth_append)
  have prev: "time (last ws1) = time (map_words ls aw ! (i - 1))" if "i \<noteq> 0"
  proof -
    from that len1 have "ws1 \<noteq> []" by auto
    then have "last ws1 = ws1 ! (i - 1)" using len1 by (simp add: last_conv_nth)
    also from that len1 whole have "\<dots> = map_words ls aw ! (i - 1)" by (simp add: nth_append)
    finally show ?thesis by simp
  qed
  have "(ws1 \<noteq> []) = (i \<noteq> 0)" using len1 by auto
  with here idx1 prev show ?thesis by (auto simp: min_def)
qed

lemma ex_short_words:
  "map_words ex_lyrics (collect_aligned ex_short) =
     [\<lparr>word = ''hello'', time = 0, line = 0\<rparr>, \<lparr>word = ''world'', time = 0.3, line = 0\<rparr>,
      \<lparr>word = ''goodbye'', time = 0.6, line = 1\<rparr>, \<lparr>word = ''now'', time = 0.9, line = 1\<rparr>]"
  by code_simp

lemma ex_expected: "expected_words ex_lyrics = [''hello'', ''world'', ''goodbye'', ''now'']"
  by code_simp

text \<open>
  Claim C3. Whatever the aligned words are (fewer than, as many as, or more than the
  expected words), the mapper returns exactly as many records as the lyric lines have
  words, a line's words being those of \<^verbatim>\<open>line_text.split()\<close>.
\<close>

theorem map_words_count:
  "length (map_words lyrics_lines all_aligned_words) = (\<Sum>l\<leftarrow>lyrics_lines. length (split_ws l))"
  by (simp add: length_map_words length_expected_words)

text \<open>
  Claim C5. The record of the \<open>i\<close>-th expected word carries the expected word. Its time
  is the start of the \<open>i\<close>-th aligned word, rounded to two decimals, when there is one;
  otherwise it is 0 for the very first expected word and the time of the previous record
  plus 0.3, rounded to two decimals, for any other.
\<close>

theorem map_words_record:
  assumes "i < length (expected_words lyrics_lines)"
  shows "word (map_words lyrics_lines (collect_aligned segments) ! i) = expected_words lyrics_lines ! i \<and>
         time (map_words lyrics_lines (collect_aligned segments) ! i) =
           (if i < length (kept_words segments) then round2 (wo_start (kept_words segments ! i))
            else if i = 0 then 0
            else round2 (time (map_words lyrics_lines (collect_aligned segments) ! (i - 1)) + 0.3))"
proof -
  have len: "length (expected_pairs lyrics_lines) = length (expected_words lyrics_lines)"
    using expected_pairs_words [of lyrics_lines] by (metis length_map)
  with assms have i: "i < length (expected_pairs lyrics_lines)" by simp
  have w: "snd (expected_pairs lyrics_lines ! i) = expected_words lyrics_lines ! i"
    using expected_pairs_words [of lyrics_lines] i by (metis nth_map)
  have a: "i < length (kept_words segments) \<Longrightarrow>
           aw_start (collect_aligned segments ! i) = round2 (wo_start (kept_words segments ! i))"
    by (simp add: collect_aligned_eq)
  have l: "length (collect_aligned segments) = length (kept_words segments)"
    by (simp add: collect_aligned_eq)
  from map_words_nth [OF i, of "collect_aligned segments"] w a l show ?thesis
    by (simp add: round2_zero)
qed

theorem map_words_record_witness:
  "1 < length (expected_words ex_lyrics) \<and>
   word (map_words ex_lyrics (collect_aligned ex_short) ! 1) = ''world'' \<and>
   time (map_words ex_lyrics (collect_aligned ex_short) ! 1) = 0.3"
proof -
  have h: "1 < length (expected_words ex_lyrics)" by (simp add: ex_expected)
  from map_words_record [OF h, of ex_short] h show ?thesis
    by (simp add: ex_short_words ex_expected)
qed

section \<open>Properties of the rounding to a double\<close>

text \<open>
  \<open>binary_exponent\<close> is the exponent of the binade of its argument; \<open>round_half_even\<close>
  gives a nearest integer, the even one at a tie. Hence \<open>dbl x\<close> has a significand of 53
  bits at the exponent of \<open>x\<close>, and no other number with that exponent is nearer to
  \<open>x\<close>.
\<close>

lemma pow2_power_int: "pow2 e = power_int 2 e"
  by (simp add: pow2_def power_int_def field_simps)

lemma pow2_pos: "0 < pow2 e"
  by (simp add: pow2_power_int)

lemma pow2_add: "pow2 (a + b) = pow2 a * pow2 b"
  by (simp add: pow2_power_int power_int_add)

lemma pow2_Suc: "pow2 (e + 1) = 2 * pow2 e"
  by (simp add: pow2_add) (simp add: pow2_def)

lemma ilog2_nonneg: "0 \<le> ilog2 n"
  by (induction n rule: ilog2.induct) (subst ilog2.simps, simp)

lemma ilog2_bounds:
  "0 < n \<Longrightarrow> pow2 (ilog2 n) \<le> of_int n \<and> of_int n < pow2 (ilog2 n + 1)"
proof (induction n rule: ilog2.induct)
  case (1 n)
  show ?case
  proof (cases "n < 2")
    case True
    with "1.prems" have "n = 1" by simp
    then show ?thesis by (simp add: ilog2.simps pow2_def)
  next
    case False
    then have pos: "0 < n div 2" by simp
    from "1.IH" [OF False pos] have
      lo: "pow2 (ilog2 (n div 2)) \<le> of_int (n div 2)" and
      hi: "of_int (n div 2) < pow2 (ilog2 (n div 2) + 1)" by simp_all
    have il: "ilog2 n = ilog2 (n div 2) + 1" using False by (subst ilog2.simps) simp
    have a: "(of_int (2 * (n div 2)) :: rat) \<le> of_int n" by (subst of_int_le_iff) simp
    obtain m where m: "pow2 (ilog2 (n div 2) + 1) = of_int m"
      using ilog2_nonneg [of "n div 2"] by (simp add: pow2_def)
    with hi have "n div 2 < m" by simp
    then have "n div 2 + 1 \<le> m" by simp
    then have "n < 2 * m" by linarith
    then have b: "(of_int n :: rat) < 2 * of_int m" by (metis of_int_less_iff of_int_mult of_int_numeral)
    from lo a have l: "pow2 (ilog2 n) \<le> of_int n" by (simp add: il pow2_Suc)
    have "pow2 (ilog2 n + 1) = 2 * pow2 (ilog2 (n div 2) + 1)"
      by (simp only: il pow2_Suc)
    with b m have "of_int n < pow2 (ilog2 n + 1)" by (simp only:)
    with l show ?thesis by simp
  qed
qed

lemma binary_exponent_bounds:
  assumes "0 < x"
  shows "pow2 (binary_exponent x) \<le> x \<and> x < pow2 (binary_exponent x + 1)"
proof -
  obtain p q where pq: "quotient_of x = (p, q)" by (cases "quotient_of x")
  then have q: "0 < q" and x: "x = of_int p / of_int q"
    by (simp_all add: quotient_of_denom_pos quotient_of_div)
  from assms x q have p: "0 < p" by (simp add: zero_less_divide_iff)
  let ?d = "ilog2 p - ilog2 q"
  from ilog2_bounds [OF p] ilog2_bounds [OF q] have
    pl: "pow2 (ilog2 p) \<le> of_int p" and ph: "of_int p < pow2 (ilog2 p + 1)" and
    ql: "pow2 (ilog2 q) \<le> of_int q" and qh: "of_int q < pow2 (ilog2 q + 1)" by simp_all
  have qpos: "(0::rat) < of_int q" using q by simp
  have "x * of_int q < pow2 (ilog2 p + 1)" using ph x qpos by simp
  also have "\<dots> = pow2 (?d + 1) * pow2 (ilog2 q)" by (simp add: pow2_add [symmetric])
  also have "\<dots> \<le> pow2 (?d + 1) * of_int q" using ql pow2_pos [of "?d + 1"] by simp
  finally have up: "x < pow2 (?d + 1)" using qpos by simp
  have "pow2 (?d - 1) * of_int q < pow2 (?d - 1) * pow2 (ilog2 q + 1)"
    using qh pow2_pos [of "?d - 1"] by simp
  also have "\<dots> = pow2 (ilog2 p)" by (simp add: pow2_add [symmetric])
  also have "\<dots> \<le> x * of_int q" using pl x qpos by simp
  finally have low: "pow2 (?d - 1) < x" using qpos by simp
  show ?thesis
  proof (cases "pow2 ?d \<le> x")
    case True
    with up pq show ?thesis by (simp add: binary_exponent_def)
  next
    case False
    with low pq show ?thesis by (simp add: binary_exponent_def)
  qed
qed


lemma round_half_even_nearest: "\<bar>of_int (round_half_even y) - y\<bar> \<le> \<bar>of_int k - y\<bar>"
proof -
  let ?f = "\<lfloor>y\<rfloor>"
  have f: "of_int ?f \<le> y" "y < of_int ?f + 1" by linarith+
  have both: "k = ?f \<or> k = ?f + 1 \<or> (y - of_int ?f \<le> \<bar>of_int k - y\<bar> \<and> of_int ?f + 1 - y \<le> \<bar>of_int k - y\<bar>)"
  proof (cases "k \<le> ?f")
    case True
    show ?thesis
    proof (cases "k = ?f")
      case False
      with True have "k \<le> ?f - 1" by simp
      then have "(of_int k :: rat) \<le> of_int (?f - 1)" by (subst of_int_le_iff)
      with f show ?thesis by (simp, linarith?)
    qed simp
  next
    case False
    show ?thesis
    proof (cases "k = ?f + 1")
      case F: False
      with False have "?f + 2 \<le> k" by simp
      then have "(of_int (?f + 2) :: rat) \<le> of_int k" by (subst of_int_le_iff)
      with f show ?thesis by (simp, linarith?)
    qed simp
  qed
  from f both show ?thesis
    by (auto simp: round_half_even_def Let_def)
qed

lemma round_half_even_tie:
  "\<bar>of_int (round_half_even y) - y\<bar> = 1 / 2 \<Longrightarrow> even (round_half_even y)"
proof -
  have f: "of_int \<lfloor>y\<rfloor> \<le> y" "y < of_int \<lfloor>y\<rfloor> + 1" by linarith+
  assume "\<bar>of_int (round_half_even y) - y\<bar> = 1 / 2"
  with f show ?thesis
    by (auto simp: round_half_even_def Let_def split: if_splits)
qed


lemma round_half_even_floor:
  "\<lfloor>y\<rfloor> \<le> round_half_even y \<and> round_half_even y \<le> \<lfloor>y\<rfloor> + 1"
  by (simp add: round_half_even_def Let_def)

lemma dbl_significand:
  assumes "x \<noteq> 0"
  defines "m \<equiv> round_half_even (\<bar>x\<bar> / pow2 (binary_exponent \<bar>x\<bar> - 52))"
  shows "dbl x = sgn x * of_int m * pow2 (binary_exponent \<bar>x\<bar> - 52)"
    and "2 ^ 52 \<le> m" and "m \<le> 2 ^ 53"
proof -
  let ?E = "binary_exponent \<bar>x\<bar>"
  let ?y = "\<bar>x\<bar> / pow2 (?E - 52)"
  from assms(1) show "dbl x = sgn x * of_int m * pow2 (?E - 52)"
    by (simp add: dbl_def Let_def m_def)
  from assms(1) have "0 < \<bar>x\<bar>" by simp
  from binary_exponent_bounds [OF this] have
    lo: "pow2 ?E \<le> \<bar>x\<bar>" and hi: "\<bar>x\<bar> < pow2 (?E + 1)" by simp_all
  have c: "pow2 52 = 2 ^ 52" "pow2 53 = 2 ^ 53" by (simp_all add: pow2_def)
  have "52 + (?E - 52) = ?E" "53 + (?E - 52) = ?E + 1" by simp_all
  with pow2_add [of 52 "?E - 52"] pow2_add [of 53 "?E - 52"]
  have e: "pow2 ?E = 2 ^ 52 * pow2 (?E - 52)" "pow2 (?E + 1) = 2 ^ 53 * pow2 (?E - 52)"
    by (simp_all only: c)
  from lo hi e pow2_pos [of "?E - 52"] have y: "2 ^ 52 \<le> ?y" "?y < 2 ^ 53"
    by (simp_all add: pos_le_divide_eq pos_divide_less_eq)
  from y(1) have "(2 ^ 52 :: int) \<le> \<lfloor>?y\<rfloor>" by (simp add: le_floor_iff)
  with round_half_even_floor [of ?y] have "2 ^ 52 \<le> round_half_even ?y" by linarith
  then show "2 ^ 52 \<le> m" by (simp only: m_def)
  from y(2) have "\<lfloor>?y\<rfloor> < (2 ^ 53 :: int)" by (simp add: floor_less_iff)
  with round_half_even_floor [of ?y] have "round_half_even ?y \<le> 2 ^ 53" by linarith
  then show "m \<le> 2 ^ 53" by (simp only: m_def)
qed

lemma dbl_nearest:
  assumes "x \<noteq> 0"
  shows "\<bar>dbl x - x\<bar> \<le> \<bar>sgn x * of_int k * pow2 (binary_exponent \<bar>x\<bar> - 52) - x\<bar>"
proof -
  let ?p = "pow2 (binary_exponent \<bar>x\<bar> - 52)"
  let ?y = "\<bar>x\<bar> / ?p"
  let ?m = "round_half_even ?y"
  have p: "0 < ?p" by (rule pow2_pos)
  have x: "x = sgn x * (?y * ?p)" using p by (simp add: mult_sgn_abs)
  have d: "sgn x * of_int j * ?p - x = sgn x * ((of_int j - ?y) * ?p)" for j
    by (subst (2) x) (simp add: algebra_simps)
  have a: "\<bar>sgn x * of_int j * ?p - x\<bar> = \<bar>of_int j - ?y\<bar> * ?p" for j
    using assms p by (simp only: d abs_mult abs_sgn_eq) simp
  have "dbl x = sgn x * of_int ?m * ?p" using dbl_significand(1) [OF assms] .
  then have "\<bar>dbl x - x\<bar> = \<bar>of_int ?m - ?y\<bar> * ?p" by (simp only: a)
  also have "\<dots> \<le> \<bar>of_int k - ?y\<bar> * ?p"
    using round_half_even_nearest [of ?y k] p by (simp only: mult_le_cancel_right) simp
  also have "\<dots> = \<bar>sgn x * of_int k * ?p - x\<bar>" by (simp only: a)
  finally show ?thesis .
qed

section \<open>Properties of the line segmenter\<close>

lemma seg_loop_tagged:
  "seg_loop segs st =
     fold (\<lambda>p. seg_word (fst p) (snd p))
       (concat (map (\<lambda>segment. map (Pair (seg_id segment)) (seg_words segment)) segs)) st"
  unfolding seg_loop_def
  by (induction segs arbitrary: st) (simp_all add: fold_map comp_def)

lemma seg_word_blank: "strip (wo_word ob) = [] \<Longrightarrow> seg_word sid ob st = st"
  by (simp add: seg_word_def)

lemma fold_seg_word_filter:
  "fold (\<lambda>p. seg_word (fst p) (snd p)) ps st =
   fold (\<lambda>p. seg_word (fst p) (snd p)) (filter (\<lambda>p. strip (wo_word (snd p)) \<noteq> []) ps) st"
  by (induction ps arbitrary: st) (simp_all add: seg_word_blank)

lemma seg_loop_kept:
  "seg_loop segs st = fold (\<lambda>p. seg_word (fst p) (snd p)) (kept_tagged segs) st"
  unfolding kept_tagged_def seg_loop_tagged by (rule fold_seg_word_filter)

lemma seg_word_kept:
  assumes "strip (wo_word ob) \<noteq> []"
  shows "sg_prev_seg (seg_word sid ob st) = sid"
    and "\<exists>r. sg_words (seg_word sid ob st) = sg_words st @ [r] \<and>
             line r = sg_line_idx (seg_word sid ob st) \<and>
             w_end r = Some (round2 (wo_end ob))"
    and "sg_line_idx (seg_word sid ob st) =
           (if sg_words st \<noteq> [] \<and> sid \<noteq> sg_prev_seg st \<and>
               dbl 0.8 < dbl (dbl (round2 (wo_start ob)) -
                     (case w_end (last (sg_words st)) of Some e \<Rightarrow> dbl e
                      | None \<Rightarrow> dbl (dbl (time (last (sg_words st))) + dbl 0.3)))
            then sg_line_idx st + 1 else sg_line_idx st)"
  using assms by (simp_all add: seg_word_def Let_def)

lemma fold_seg_word_ext:
  assumes "\<forall>p \<in> set ps. strip (wo_word (snd p)) \<noteq> []"
  shows "\<exists>ext. sg_words (fold (\<lambda>p. seg_word (fst p) (snd p)) ps st) = sg_words st @ ext \<and>
               length ext = length ps"
  using assms
proof (induction ps arbitrary: st)
  case Nil
  show ?case by simp
next
  case (Cons p ps)
  from Cons.prems have k: "strip (wo_word (snd p)) \<noteq> []" by simp
  from seg_word_kept(2) [OF k, of "fst p" st] obtain r where
    r: "sg_words (seg_word (fst p) (snd p) st) = sg_words st @ [r]" by blast
  from Cons.prems have "\<forall>p \<in> set ps. strip (wo_word (snd p)) \<noteq> []" by simp
  from Cons.IH [OF this, of "seg_word (fst p) (snd p) st"] obtain ext where
    "sg_words (fold (\<lambda>p. seg_word (fst p) (snd p)) ps (seg_word (fst p) (snd p) st))
       = sg_words (seg_word (fst p) (snd p) st) @ ext" "length ext = length ps" by blast
  with r have "sg_words (fold (\<lambda>p. seg_word (fst p) (snd p)) (p # ps) st) = sg_words st @ (r # ext)
      \<and> length (r # ext) = length (p # ps)" by simp
  then show ?case by blast
qed

lemma fold_seg_word_last:
  assumes "\<forall>p \<in> set ps. strip (wo_word (snd p)) \<noteq> []" and "ps \<noteq> []"
  shows "sg_prev_seg (fold (\<lambda>p. seg_word (fst p) (snd p)) ps st) = fst (last ps) \<and>
         sg_words (fold (\<lambda>p. seg_word (fst p) (snd p)) ps st) \<noteq> [] \<and>
         w_end (last (sg_words (fold (\<lambda>p. seg_word (fst p) (snd p)) ps st)))
           = Some (round2 (wo_end (snd (last ps)))) \<and>
         line (last (sg_words (fold (\<lambda>p. seg_word (fst p) (snd p)) ps st)))
           = sg_line_idx (fold (\<lambda>p. seg_word (fst p) (snd p)) ps st)"
proof -
  from assms(2) obtain qs q where ps: "ps = qs @ [q]" by (metis rev_exhaust)
  with assms(1) have k: "strip (wo_word (snd q)) \<noteq> []" by simp
  let ?st = "fold (\<lambda>p. seg_word (fst p) (snd p)) qs st"
  have f: "fold (\<lambda>p. seg_word (fst p) (snd p)) ps st = seg_word (fst q) (snd q) ?st"
    by (simp add: ps)
  from seg_word_kept(2) [OF k, of "fst q" ?st] obtain r where
    "sg_words (seg_word (fst q) (snd q) ?st) = sg_words ?st @ [r]"
    "line r = sg_line_idx (seg_word (fst q) (snd q) ?st)"
    "w_end r = Some (round2 (wo_end (snd q)))" by blast
  with seg_word_kept(1) [OF k, of "fst q" ?st] f ps show ?thesis by simp
qed

lemma kept_tagged_all: "\<forall>p \<in> set (kept_tagged segs). strip (wo_word (snd p)) \<noteq> []"
  by (simp add: kept_tagged_def)

lemma line_truncate: "line (word_record.truncate r) = line r"
  by (simp add: word_record.truncate_def)

lemma length_transcribe_words: "length (transcribe_words segs) = length (kept_tagged segs)"
proof -
  from fold_seg_word_ext [OF kept_tagged_all, of segs seg_init] obtain ext where
    "sg_words (fold (\<lambda>p. seg_word (fst p) (snd p)) (kept_tagged segs) seg_init)
       = sg_words seg_init @ ext" "length ext = length (kept_tagged segs)" by blast
  then show ?thesis by (simp add: transcribe_words_def seg_loop_kept seg_init_def)
qed

lemma transcribe_words_line:
  assumes "i < length (kept_tagged segs)"
  shows "line (transcribe_words segs ! i) =
     (if i = 0 then 0
      else if fst (kept_tagged segs ! i) \<noteq> fst (kept_tagged segs ! (i - 1)) \<and>
              dbl 0.8 < dbl (dbl (round2 (wo_start (snd (kept_tagged segs ! i))))
                             - dbl (round2 (wo_end (snd (kept_tagged segs ! (i - 1))))))
           then line (transcribe_words segs ! (i - 1)) + 1
           else line (transcribe_words segs ! (i - 1)))"
proof -
  let ?f = "\<lambda>p. seg_word (fst p) (snd p)"
  let ?ks = "kept_tagged segs"
  let ?p = "?ks ! i"
  let ?pre = "take i ?ks"
  let ?st1 = "fold ?f ?pre seg_init"
  let ?st2 = "seg_word (fst ?p) (snd ?p) ?st1"
  let ?fin = "fold ?f ?ks seg_init"
  from assms have split: "?ks = ?pre @ ?p # drop (Suc i) ?ks" by (simp add: id_take_nth_drop)
  have allk: "\<forall>p \<in> set ?ks. strip (wo_word (snd p)) \<noteq> []" by (rule kept_tagged_all)
  then have prek: "\<forall>p \<in> set ?pre. strip (wo_word (snd p)) \<noteq> []"
    by (meson in_set_takeD)
  from allk have postk: "\<forall>p \<in> set (drop (Suc i) ?ks). strip (wo_word (snd p)) \<noteq> []"
    by (meson in_set_dropD)
  from allk assms have pk: "strip (wo_word (snd ?p)) \<noteq> []" by simp
  from fold_seg_word_ext [OF prek, of seg_init] assms have len1: "length (sg_words ?st1) = i"
    by (auto simp: seg_init_def)
  from seg_word_kept(2) [OF pk, of "fst ?p" ?st1] obtain r where
    r: "sg_words ?st2 = sg_words ?st1 @ [r]" "line r = sg_line_idx ?st2" by blast
  have "?fin = fold ?f (drop (Suc i) ?ks) ?st2" by (subst split) simp
  with fold_seg_word_ext [OF postk, of ?st2] obtain ext where
    "sg_words ?fin = sg_words ?st2 @ ext" by auto
  with r have whole: "sg_words ?fin = sg_words ?st1 @ r # ext" by simp
  have tw: "transcribe_words segs = map word_record.truncate (sg_words ?fin)"
    by (simp add: transcribe_words_def seg_loop_kept)
  from assms have ilen: "i < length (transcribe_words segs)"
    by (simp add: length_transcribe_words)
  with tw whole len1 r have here: "line (transcribe_words segs ! i) = sg_line_idx ?st2"
    by (simp add: nth_append line_truncate)
  show ?thesis
  proof (cases "i = 0")
    case True
    with len1 have "sg_words ?st1 = []" by simp
    moreover from True have "?st1 = seg_init" by simp
    ultimately show ?thesis
      using here True seg_word_kept(3) [OF pk, of "fst ?p" ?st1] by (simp add: seg_init_def)
  next
    case False
    with assms have ne: "?pre \<noteq> []" by auto
    from ne have "last ?pre = ?pre ! (length ?pre - 1)" by (rule last_conv_nth)
    with False assms have lastp: "last ?pre = ?ks ! (i - 1)" by simp
    from fold_seg_word_last [OF prek ne, of seg_init] lastp have
      prev: "sg_prev_seg ?st1 = fst (?ks ! (i - 1))" and
      nonempty: "sg_words ?st1 \<noteq> []" and
      e: "w_end (last (sg_words ?st1)) = Some (round2 (wo_end (snd (?ks ! (i - 1)))))" and
      l: "line (last (sg_words ?st1)) = sg_line_idx ?st1" by simp_all
    from nonempty len1 have "last (sg_words ?st1) = sg_words ?st1 ! (i - 1)"
      by (simp add: last_conv_nth)
    also from False len1 whole have "\<dots> = sg_words ?fin ! (i - 1)" by (simp add: nth_append)
    finally have "line (last (sg_words ?st1)) = line (transcribe_words segs ! (i - 1))"
      using tw ilen by (simp add: line_truncate)
    with l have before: "sg_line_idx ?st1 = line (transcribe_words segs ! (i - 1))" by simp
    from seg_word_kept(3) [OF pk, of "fst ?p" ?st1] here prev nonempty e before False
    show ?thesis by simp
  qed
qed

lemma ex_round_kept:
  "kept_tagged ex_round =
     [(0, \<lparr>wo_word = ''a'', wo_start = 0.0, wo_end = 1.0\<rparr>),
      (1, \<lparr>wo_word = ''b'', wo_start = 1.804, wo_end = 2.0\<rparr>),
      (2, \<lparr>wo_word = ''c'', wo_start = 3.0, wo_end = 3.5\<rparr>)]"
  by code_simp

lemma ex_round_words:
  "transcribe_words ex_round =
     [\<lparr>word = ''a'', time = 0, line = 0\<rparr>, \<lparr>word = ''b'', time = 1.8, line = 0\<rparr>,
      \<lparr>word = ''c'', time = 3, line = 1\<rparr>]"
  by code_simp

lemma ex_tie_kept:
  "kept_tagged ex_tie =
     [(0, \<lparr>wo_word = ''a'', wo_start = 0.0, wo_end = 0.57\<rparr>),
      (1, \<lparr>wo_word = ''b'', wo_start = 1.37, wo_end = 2.0\<rparr>)]"
  by code_simp

lemma ex_tie_words:
  "transcribe_words ex_tie =
     [\<lparr>word = ''a'', time = 0, line = 0\<rparr>, \<lparr>word = ''b'', time = 1.37, line = 1\<rparr>]"
  by code_simp

lemma dbl_values:
  "dbl 0.8 = 3602879701896397 / 4503599627370496"
  "dbl 1.8 = 8106479329266893 / 4503599627370496"
  "dbl 1 = 1"
  "dbl 1.37 = 1542482872374395 / 1125899906842624"
  "dbl 0.57 = 5134103575202365 / 9007199254740992"
  "dbl (dbl 1.8 - dbl 1) = 3602879701896397 / 4503599627370496"
  "dbl (dbl 1.37 - dbl 0.57) = 7205759403792795 / 9007199254740992"
  by code_simp+

text \<open>
  Claim C4, as the specification states it, with the gap taken between the observation's
  start and the previous observation's end. In \<open>ex_round\<close> the second word is in another
  segment and starts 0.804 after the end of the first, yet it stays on line 0: the script
  compares the rounded start 1.80 with the rounded end 1.00, and the doubles 1.8 and 1.0
  subtract to the double 0.8, which is not above 0.8.
\<close>

theorem segment_line_break_counterexample:
  "\<not> (line (transcribe_words ex_round ! 1) = line (transcribe_words ex_round ! 0) + 1 \<longleftrightarrow>
      fst (kept_tagged ex_round ! 1) \<noteq> fst (kept_tagged ex_round ! 0) \<and>
      0.8 < wo_start (snd (kept_tagged ex_round ! 1)) - wo_end (snd (kept_tagged ex_round ! 0)))"
  by (simp add: ex_round_kept ex_round_words)

text \<open>
  Claim C4, amended. The script appends one record per observation whose stripped text is
  not empty. The first appended record is on line 0. Any other is on the line after that
  of the previous appended record if its segment identifier differs from that of the
  previous appended observation and the difference of its start, rounded to two decimals,
  and the previous appended observation's end, rounded to two decimals, subtracted as
  doubles, is above the double 0.8; otherwise it is on the same line as the previous
  appended record. At a decimal gap of exactly 0.80 the outcome depends on the two
  values: 1.80 after 1.00 stays on the line, 1.37 after 0.57 starts a new one. (The end is
  always recorded, so the fall-back \<open>time + 0.3\<close> is never taken.)
\<close>

theorem segment_line_break:
  assumes "i < length (kept_tagged segs)"
  shows "length (transcribe_words segs) = length (kept_tagged segs) \<and>
         line (transcribe_words segs ! i) =
           (if i = 0 then 0
            else if fst (kept_tagged segs ! i) \<noteq> fst (kept_tagged segs ! (i - 1)) \<and>
                    dbl 0.8 < dbl (dbl (round2 (wo_start (snd (kept_tagged segs ! i))))
                                   - dbl (round2 (wo_end (snd (kept_tagged segs ! (i - 1))))))
                 then line (transcribe_words segs ! (i - 1)) + 1
                 else line (transcribe_words segs ! (i - 1)))"
  using transcribe_words_line [OF assms] length_transcribe_words [of segs] by simp

theorem segment_line_break_witness:
  "2 < length (kept_tagged ex_round) \<and>
   length (transcribe_words ex_round) = 3 \<and>
   line (transcribe_words ex_round ! 2) = line (transcribe_words ex_round ! 1) + 1 \<and>
   1 < length (kept_tagged ex_round) \<and>
   line (transcribe_words ex_round ! 1) = line (transcribe_words ex_round ! 0) \<and>
   1 < length (kept_tagged ex_tie) \<and>
   line (transcribe_words ex_tie ! 1) = line (transcribe_words ex_tie ! 0) + 1"
proof -
  have h: "2 < length (kept_tagged ex_round)" by (simp add: ex_round_kept)
  have h1: "1 < length (kept_tagged ex_round)" by (simp add: ex_round_kept)
  have g: "1 < length (kept_tagged ex_tie)" by (simp add: ex_tie_kept)
  from segment_line_break [OF h] segment_line_break [OF h1] segment_line_break [OF g] h h1 g
  show ?thesis
    by (simp add: ex_round_kept ex_round_words ex_tie_kept ex_tie_words)
qed

section \<open>Properties of the section labeler\<close>

lemma fold_add_section:
  "fold (add_section ws) es acc =
     acc @ map (\<lambda>(line_num, label).
                  \<lparr>sec_time = round2 (time (hd (filter (\<lambda>w. line w = line_num) ws)) - 0.5),
                   sec_label = label\<rparr>)
               (filter (\<lambda>e. filter (\<lambda>w. line w = fst e) ws \<noteq> []) es)"
  by (induction es arbitrary: acc) (auto simp: add_section_def Let_def)

lemma sorted_items_strict:
  assumes "distinct (map fst (smap :: (nat \<times> string) list))"
  shows "sorted_wrt (<) (map fst (filter P (sort_key fst smap)))"
proof -
  have "sorted (map fst (filter P (sort_key fst smap)))"
    by (rule sorted_filter) (rule sorted_sort_key)
  moreover from assms have "distinct (map fst (sort_key fst smap))"
    by (simp add: distinct_map)
  then have "distinct (map fst (filter P (sort_key fst smap)))"
    by (rule distinct_map_filter)
  ultimately show ?thesis by (simp add: strict_sorted_iff)
qed

text \<open>
  Claim C6. For a section table with distinct line indices, the sections emitted are those
  of a list \<open>es\<close> of table entries, one section per entry and in the order of \<open>es\<close>:
  the section of an entry \<open>(L, label)\<close> has that label and the time
  \<open>round(T - 0.5, 2)\<close>, \<open>T\<close> being the time of the first word record on line \<open>L\<close>;
  the entries of \<open>es\<close> are exactly the table entries whose line has a word record, so
  that a mapped line without records gets no section; and \<open>es\<close> is in ascending order
  of line index.
\<close>

theorem sections_anchored:
  assumes "distinct (map fst smap)"
  shows "\<exists>es. build_sections smap ws =
                 map (\<lambda>(line_num, label).
                        \<lparr>sec_time = round2 (time (hd (filter (\<lambda>w. line w = line_num) ws)) - 0.5),
                         sec_label = label\<rparr>) es \<and>
              set es = {e \<in> set smap. filter (\<lambda>w. line w = fst e) ws \<noteq> []} \<and>
              sorted_wrt (<) (map fst es)"
proof -
  let ?es = "filter (\<lambda>e. filter (\<lambda>w. line w = fst e) ws \<noteq> []) (sort_key fst smap)"
  have "build_sections smap ws =
          map (\<lambda>(line_num, label).
                 \<lparr>sec_time = round2 (time (hd (filter (\<lambda>w. line w = line_num) ws)) - 0.5),
                  sec_label = label\<rparr>) ?es"
    by (simp add: build_sections_def fold_add_section)
  moreover have "set ?es = {e \<in> set smap. filter (\<lambda>w. line w = fst e) ws \<noteq> []}"
    by auto
  moreover from assms have "sorted_wrt (<) (map fst ?es)" by (rule sorted_items_strict)
  ultimately show ?thesis by blast
qed

lemma ex_sections:
  "build_sections [(1, ''Chorus''), (5, ''Outro''), (0, ''Verse 1'')] ex_repaired =
     [\<lparr>sec_time = - 0.5, sec_label = ''Verse 1''\<rparr>, \<lparr>sec_time = 5.1, sec_label = ''Chorus''\<rparr>]"
  by code_simp

theorem sections_anchored_witness:
  "distinct (map fst [(1 :: nat, ''Chorus''), (5, ''Outro''), (0, ''Verse 1'')]) \<and>
   (\<exists>es. [\<lparr>sec_time = - 0.5, sec_label = ''Verse 1''\<rparr>, \<lparr>sec_time = 5.1, sec_label = ''Chorus''\<rparr>] =
            map (\<lambda>(line_num, label).
                   \<lparr>sec_time = round2 (time (hd (filter (\<lambda>w. line w = line_num) ex_repaired)) - 0.5),
                    sec_label = label\<rparr>) es \<and>
         set es = {e \<in> set [(1, ''Chorus''), (5, ''Outro''), (0, ''Verse 1'')].
                     filter (\<lambda>w. line w = fst e) ex_repaired \<noteq> []} \<and>
         sorted_wrt (<) (map fst es))"
proof -
  have d: "distinct (map fst [(1 :: nat, ''Chorus''), (5, ''Outro''), (0, ''Verse 1'')])" by simp
  from sections_anchored [OF d, of ex_repaired] d show ?thesis
    by (simp only: ex_sections) 
qed

section \<open>Properties of the line mapping and the output\<close>






lemma run_passes_frame:
  "length (rs_words (run_passes ps st)) = length (rs_words st) \<and>
   map word (rs_words (run_passes ps st)) = map word (rs_words st) \<and>
   map line (rs_words (run_passes ps st)) = map line (rs_words st)"
proof (induction ps arbitrary: st)
  case Nil
  show ?case by simp
next
  case (Cons p ps)
  obtain ws n where f: "fix_timestamps (rs_words st) = (ws, n)"
    by (cases "fix_timestamps (rs_words st)")
  then have "ws = fst (fold fix_at [1..<length (rs_words st)] (rs_words st, 0))"
    by (simp add: fix_timestamps_def)
  then have fr: "length ws = length (rs_words st)" "map word ws = map word (rs_words st)"
    "map line ws = map line (rs_words st)"
    by (simp_all add: fold_fix_at_length fold_fix_at_word fold_fix_at_line)
  let ?st = "\<lparr>rs_words = ws, rs_total_fixed = rs_total_fixed st + n, rs_pass_num = p, rs_n = n\<rparr>"
  from Cons.IH [of ?st] fr f show ?case by (simp add: Let_def)
qed

lemma repair_frame:
  "length (rs_words (repair ws)) = length ws \<and>
   map word (rs_words (repair ws)) = map word ws \<and>
   map line (rs_words (repair ws)) = map line ws"
  unfolding repair_def using run_passes_frame [of "[0..<5]"] by simp














lemma kept_tagged_words: "map snd (kept_tagged segs) = kept_words segs"
proof -
  have a: "map snd (filter (\<lambda>p. P (snd p)) ps) = filter P (map snd ps)"
    for P and ps :: "(int \<times> word_obs) list"
    by (induction ps) simp_all
  have b: "map snd (concat (map (\<lambda>segment. map (Pair (seg_id segment)) (seg_words segment)) segs))
      = concat (map seg_words segs)"
    by (induction segs) (simp_all add: comp_def)
  show ?thesis
    unfolding kept_tagged_def kept_words_def
    using a [of "\<lambda>word_obj. strip (wo_word word_obj) \<noteq> []"] b by simp
qed

lemma transcribe_empty:
  assumes "kept_words segs = []"
  shows "transcribe segs = \<lparr>out_words = [], out_lines = [], out_totalWords = 0, out_totalLines = 0\<rparr>"
proof -
  from assms kept_tagged_words [of segs] have "kept_tagged segs = []" by simp
  then have "transcribe_words segs = []"
    using length_transcribe_words [of segs] by simp
  then show ?thesis by (simp add: transcribe_def assemble_def build_lines_def)
qed

lemma align_lyrics_fields:
  "o2_words (align_lyrics ls smap segs) = rs_words (repair (map_words ls (collect_aligned segs)))"
  "o2_lines (align_lyrics ls smap segs) = line_texts_v2 ls"
  "o2_totalWords (align_lyrics ls smap segs) = length (expected_words ls)"
  "o2_totalLines (align_lyrics ls smap segs) = length ls"
  by (simp_all add: align_lyrics_def Let_def repair_frame length_map_words line_texts_v2_def)


lemma ex_blank_kept: "kept_words ex_blank = []"
  by code_simp

lemma ex_silent_kept: "kept_words ex_silent = []"
  by code_simp

lemma length_LYRICS_LINES: "length LYRICS_LINES = 39"
  by (simp add: LYRICS_LINES_def)

lemma lyrics_expected: "length (expected_words LYRICS_LINES) = 263"
  by code_simp


text \<open>
  Claim C8, as the specification states it, in the guided pipeline: the alignment result
  \<open>ex_silent\<close> has no word, and yet the document of the script has 263 word records,
  \<open>totalWords = 263\<close> and \<open>totalLines = 39\<close>.
\<close>

theorem empty_alignment_counterexample:
  "kept_words ex_silent = [] \<and>
   o2_words (align_lyrics LYRICS_LINES section_map ex_silent) \<noteq> [] \<and>
   o2_lines (align_lyrics LYRICS_LINES section_map ex_silent) \<noteq> [] \<and>
   length (o2_words (align_lyrics LYRICS_LINES section_map ex_silent)) = 263 \<and>
   o2_totalWords (align_lyrics LYRICS_LINES section_map ex_silent) = 263 \<and>
   length (o2_lines (align_lyrics LYRICS_LINES section_map ex_silent)) = 39 \<and>
   o2_totalLines (align_lyrics LYRICS_LINES section_map ex_silent) = 39"
proof -
  have w: "length (o2_words (align_lyrics LYRICS_LINES section_map ex_silent)) = 263"
    by (simp add: align_lyrics_fields repair_frame length_map_words lyrics_expected)
  have l: "length (o2_lines (align_lyrics LYRICS_LINES section_map ex_silent)) = 39"
    by (simp add: align_lyrics_fields length_LYRICS_LINES line_texts_v2_def)
  from w have "o2_words (align_lyrics LYRICS_LINES section_map ex_silent) \<noteq> []" by auto
  moreover from l have "o2_lines (align_lyrics LYRICS_LINES section_map ex_silent) \<noteq> []" by auto
  ultimately show ?thesis
    using w l by (simp add: ex_silent_kept align_lyrics_fields lyrics_expected length_LYRICS_LINES)
qed

text \<open>
  Claim C8, amended. When the alignment has no word with a non-empty stripped text, the
  free transcription has no word record and its document is the empty one: no words, no
  lines, both totals 0. The guided alignment instead has one (synthesized) record per
  expected word, \<open>totalWords\<close> the number of expected words, and one entry of
  \<open>lines\<close> per lyric line, \<open>totalLines\<close> being their number.
\<close>

theorem empty_alignment:
  assumes "kept_words segs = []"
  shows "transcribe segs =
           \<lparr>out_words = [], out_lines = [], out_totalWords = 0, out_totalLines = 0\<rparr> \<and>
         length (o2_words (align_lyrics ls smap segs)) = (\<Sum>l\<leftarrow>ls. length (split_ws l)) \<and>
         o2_totalWords (align_lyrics ls smap segs) = (\<Sum>l\<leftarrow>ls. length (split_ws l)) \<and>
         length (o2_lines (align_lyrics ls smap segs)) = length ls \<and>
         o2_totalLines (align_lyrics ls smap segs) = length ls"
  using transcribe_empty [OF assms]
  by (simp add: align_lyrics_fields repair_frame length_map_words length_expected_words
        line_texts_v2_def)

theorem empty_alignment_witness:
  "kept_words ex_blank = [] \<and>
   transcribe ex_blank =
     \<lparr>out_words = [], out_lines = [], out_totalWords = 0, out_totalLines = 0\<rparr> \<and>
   length (o2_words (align_lyrics ex_lyrics section_map ex_blank)) = 4 \<and>
   o2_totalLines (align_lyrics ex_lyrics section_map ex_blank) = 2"
proof -
  have "(\<Sum>l\<leftarrow>ex_lyrics. length (split_ws l)) = 4"
    using length_expected_words [of ex_lyrics] by (simp add: ex_expected)
  with empty_alignment [OF ex_blank_kept, of ex_lyrics section_map] show ?thesis
    by (simp add: ex_blank_kept) (simp add: ex_lyrics_def)
qed


section \<open>The worked example\<close>

text \<open>
  Claim C2, as the specification states it: the final words of the example have
  \<open>world\<close> at 0.68. The script does not produce them.
\<close>

theorem guided_example_counterexample:
  "rs_words (repair (map_words ex_lyrics ex_aligned)) \<noteq> ex_claimed"
  by (simp add: ex_repair ex_repaired_def ex_claimed_def)

text \<open>
  Claim C2, amended. The mapper gives the four expected words the four start times; the
  repairer compares \<open>world\<close> (5.20) with the \<open>time\<close> of \<open>hello\<close>, which is its start
  0.00 and not its end 0.40, finds the gap 5.20 above 4.0 and sets \<open>world\<close> to
  \<open>0.00 + 0.28 = 0.28\<close>. The other words are kept. One fix is applied in all, and the
  second pass (\<open>pass_num = 1\<close>) applies none.
\<close>

theorem guided_example:
  "map_words ex_lyrics ex_aligned =
     [\<lparr>word = ''hello'', time = 0.00, line = 0\<rparr>, \<lparr>word = ''world'', time = 5.20, line = 0\<rparr>,
      \<lparr>word = ''goodbye'', time = 5.60, line = 1\<rparr>, \<lparr>word = ''now'', time = 6.10, line = 1\<rparr>] \<and>
   repair (map_words ex_lyrics ex_aligned) =
     \<lparr>rs_words =
        [\<lparr>word = ''hello'', time = 0.00, line = 0\<rparr>, \<lparr>word = ''world'', time = 0.28, line = 0\<rparr>,
         \<lparr>word = ''goodbye'', time = 5.60, line = 1\<rparr>, \<lparr>word = ''now'', time = 6.10, line = 1\<rparr>],
      rs_total_fixed = 1, rs_pass_num = 1, rs_n = 0\<rparr>"
  by code_simp

end
